theory Spec2Isabelle
  imports Main "HOL-Library.Word" "HOL-Library.Sublist"
begin

unbundle bit_operations_syntax

section \<open>The socket the client talks to\<close>

text \<open>
  The class \<open>_WebSocket\<close> of \<open>tempest/common/compute.py\<close> drives one TCP socket through
  four calls: \<open>sendall\<close>, \<open>recv\<close>, \<open>shutdown\<close> and \<open>close\<close>. The socket is modelled as a
  scripted transport. \<open>rx\<close> is the list of chunks the transport is going to deliver, in
  order; a \<open>recv n\<close> returns at most \<open>n\<close> bytes of the first chunk and leaves the remainder
  of that chunk for the next call (a partial read). An empty chunk, or no chunk at all,
  is a read of zero bytes: the peer has closed. \<open>ops\<close> is the record of every call made on
  the socket, oldest first, each \<open>recv\<close> with the bytes it returned. Failures of the
  operating system (reset, broken pipe) are not part of the script.
\<close>

type_synonym byte = "8 word"

datatype sock_op =
    Sendall "byte list"
  | Recv nat "byte list"
  | Shutdown int
  | Close

record tcp_socket =
  rx :: "byte list list"
  ops :: "sock_op list"

definition sendall :: "byte list \<Rightarrow> tcp_socket \<Rightarrow> tcp_socket" where
  "sendall bs s = s\<lparr>ops := ops s @ [Sendall bs]\<rparr>"

definition recv :: "nat \<Rightarrow> tcp_socket \<Rightarrow> byte list \<times> tcp_socket" where
  "recv n s =
     (case rx s of
        [] \<Rightarrow> ([], s\<lparr>ops := ops s @ [Recv n []]\<rparr>)
      | c # cs \<Rightarrow>
          (take n c,
           s\<lparr>rx := (if length c \<le> n then cs else drop n c # cs),
             ops := ops s @ [Recv n (take n c)]\<rparr>))"

definition shutdown :: "int \<Rightarrow> tcp_socket \<Rightarrow> tcp_socket" where
  "shutdown how s = s\<lparr>ops := ops s @ [Shutdown how]\<rparr>"

definition close_socket :: "tcp_socket \<Rightarrow> tcp_socket" where
  "close_socket s = s\<lparr>ops := ops s @ [Close]\<rparr>"

text \<open>
  The argument of \<open>shutdown\<close> is one of the three constants of Python's \<open>socket\<close> module,
  which are those of POSIX: 0 ends receiving, 1 ends sending, 2 ends both.
\<close>

definition SHUT_RD :: int where "SHUT_RD = 0"
definition SHUT_WR :: int where "SHUT_WR = 1"
definition SHUT_RDWR :: int where "SHUT_RDWR = 2"

datatype direction = Receiving | Sending

definition shut_directions :: "int \<Rightarrow> direction set" where
  "shut_directions how =
     (if how = SHUT_RD then {Receiving}
      else if how = SHUT_WR then {Sending}
      else if how = SHUT_RDWR then {Receiving, Sending}
      else {})"

section \<open>The client object\<close>

text \<open>
  \<open>sock\<close> is the socket object that \<open>create_websocket\<close> opened and handed to the
  constructor; \<open>has_socket\<close> says that the attribute \<open>self._socket\<close> refers to it (it is
  \<open>None\<close> after \<open>close\<close>); \<open>response\<close> is the attribute \<open>self.response\<close>. A method call
  returns its outcome together with the new state. The outcome is \<open>Inl\<close> of the exception
  raised or \<open>Inr\<close> of the value returned.
\<close>

datatype py_error = AttributeError | IndexError | StructError

record websocket =
  sock :: tcp_socket
  has_socket :: bool
  response :: "byte list"

record parsed_url =
  hostname :: string
  port :: nat
  query :: string

subsection \<open>send_frame\<close>

definition mask_key :: "int list" where
  "mask_key = [7, 2, 1, 9]"

text \<open>\<open>ord_func\<close> of one element of a byte string is its value, an integer in 0..255.\<close>

definition ord_func :: "byte \<Rightarrow> int" where
  "ord_func b = uint b"

definition frame_bytes :: "byte list \<Rightarrow> int list" where
  "frame_bytes data =
     [130, int (length data) OR 128]
     @ map (\<lambda>i. mask_key ! i) [0..<length mask_key]
     @ map (\<lambda>i. ord_func (data ! i) XOR mask_key ! (i mod 4)) [0..<length data]"

text \<open>\<open>struct.pack\<close> with the format \<open>B\<close> raises \<open>struct.error\<close> on a value outside 0..255.\<close>

definition struct_pack_B :: "int list \<Rightarrow> py_error + byte list" where
  "struct_pack_B vs =
     (if list_all (\<lambda>v. 0 \<le> v \<and> v \<le> 255) vs then Inr (map word_of_int vs)
      else Inl StructError)"

definition send_frame :: "byte list \<Rightarrow> websocket \<Rightarrow> (py_error + unit) \<times> websocket" where
  "send_frame data ws =
     (case struct_pack_B (frame_bytes data) of
        Inl e \<Rightarrow> (Inl e, ws)
      | Inr packed \<Rightarrow>
          if has_socket ws then (Inr (), ws\<lparr>sock := sendall packed (sock ws)\<rparr>)
          else (Inl AttributeError, ws))"

subsection \<open>receive_frame\<close>

text \<open>
  Every turn of the loops below that goes round again has read at least one byte, so the
  amount of data the transport still holds (counting each chunk once more, for the
  empty ones) goes down.
\<close>

definition pending :: "tcp_socket \<Rightarrow> nat" where
  "pending s = sum_list (map length (rx s)) + length (rx s)"

text \<open>Indexing a byte string: \<open>IndexError\<close> out of range.\<close>

definition getitem :: "byte list \<Rightarrow> nat \<Rightarrow> py_error + byte" where
  "getitem bs i = (if i < length bs then Inr (bs ! i) else Inl IndexError)"

lemma recv_pending_le: "pending (snd (recv n s)) \<le> pending s"
  by (cases "rx s") (simp_all add: recv_def pending_def)

lemma recv_pending_less: "fst (recv n s) \<noteq> [] \<Longrightarrow> pending (snd (recv n s)) < pending s"
  by (cases "rx s") (auto simp: recv_def pending_def)

lemma recv_eq_pending_le: "(x, y) = recv n s \<Longrightarrow> pending y \<le> pending s"
  using recv_pending_le [of n s] by (metis snd_conv)

lemma recv_eq_pending_less: "(x, y) = recv n s \<Longrightarrow> x \<noteq> [] \<Longrightarrow> pending y < pending s"
  using recv_pending_less [of n s] by (metis fst_conv snd_conv)

function receive_loop :: "tcp_socket \<Rightarrow> (py_error + byte list option) \<times> tcp_socket" where
  "receive_loop s =
     (case recv 2 s of (header, s1) \<Rightarrow>
        if length header = 0 then (Inr None, s1)
        else
          (case getitem header 1 of
             Inl e \<Rightarrow> (Inl e, s1)
           | Inr h1 \<Rightarrow>
               if ord_func h1 AND 127 > 0 then
                 (case recv (nat (ord_func h1 AND 127)) s1 of
                    (payload, s2) \<Rightarrow> (Inr (Some payload), s2))
               else receive_loop s1))"
  by pat_completeness auto
termination
  by (relation "measure pending") (auto dest: recv_eq_pending_less)

declare receive_loop.simps [simp del]

text \<open>
  The header of an empty frame: two bytes, the low seven bits of the second are 0.
\<close>

definition empty_header :: "byte list \<Rightarrow> bool" where
  "empty_header h \<longleftrightarrow> length h = 2 \<and> ord_func (h ! 1) AND 127 = 0"

text \<open>\<open>recvs n k\<close>: what \<open>k\<close> calls of \<open>recv n\<close> in a row return, and the socket after them.\<close>

fun recvs :: "nat \<Rightarrow> nat \<Rightarrow> tcp_socket \<Rightarrow> byte list list \<times> tcp_socket" where
  "recvs n 0 s = ([], s)"
| "recvs n (Suc k) s =
     (case recv n s of (b, s1) \<Rightarrow> (case recvs n k s1 of (bs, s2) \<Rightarrow> (b # bs, s2)))"

definition receive_frame :: "websocket \<Rightarrow> (py_error + byte list option) \<times> websocket" where
  "receive_frame ws =
     (if has_socket ws then
        (case receive_loop (sock ws) of (r, s') \<Rightarrow> (r, ws\<lparr>sock := s'\<rparr>))
      else (Inl AttributeError, ws))"

subsection \<open>close\<close>

definition close :: "websocket \<Rightarrow> (py_error + unit) \<times> websocket" where
  "close ws =
     (if has_socket ws then
        (Inr (), ws\<lparr>sock := close_socket (shutdown 1 (sock ws)), has_socket := False\<rparr>)
      else (Inr (), ws))"

subsection \<open>The upgrade handshake\<close>

text \<open>
  A Python text is held as the bytes of its UTF-8 encoding, so that \<open>encode('utf8')\<close>
  only changes the type, and \<open>+\<close> and \<open>%s\<close> on texts are \<open>@\<close> on the bytes. \<open>%s\<close> of the
  port, an integer, is its decimal numeral.
\<close>

definition CRLF :: string where
  "CRLF = [CHR 0x0D, CHR 0x0A]"

definition encode_utf8 :: "string \<Rightarrow> byte list" where
  "encode_utf8 t = map (\<lambda>c. word_of_nat (of_char c)) t"

fun str_nat :: "nat \<Rightarrow> string" where
  "str_nat n =
     (if n < 10 then [''0123456789'' ! n]
      else str_nat (n div 10) @ [''0123456789'' ! (n mod 10)])"

declare str_nat.simps [simp del]

text \<open>\<open>bytes.find\<close>: the lowest index at which \<open>sub\<close> occurs, \<open>-1\<close> when it does not occur.\<close>

fun find_from :: "nat \<Rightarrow> byte list \<Rightarrow> byte list \<Rightarrow> int" where
  "find_from i [] sub = (if sub = [] then int i else - 1)"
| "find_from i (x # xs) sub =
     (if take (length sub) (x # xs) = sub then int i else find_from (Suc i) xs sub)"

definition bytes_find :: "byte list \<Rightarrow> byte list \<Rightarrow> int" where
  "bytes_find bs sub = find_from 0 bs sub"

definition terminator :: "byte list" where
  "terminator = [0x0D, 0x0A, 0x0D, 0x0A]"

function upgrade_loop :: "byte list \<Rightarrow> byte list \<Rightarrow> tcp_socket \<Rightarrow> byte list \<times> tcp_socket" where
  "upgrade_loop data resp s =
     (if length data > 0 \<and> bytes_find resp terminator < 0 then
        (case recv 4096 s of (data', s') \<Rightarrow> upgrade_loop data' (resp @ data') s')
      else (resp, s))"
  by pat_completeness auto
termination
  by (relation "measure (\<lambda>(data, resp, s). pending s + (if data = [] then 0 else 1))")
    (auto dest: recv_eq_pending_less recv_eq_pending_le)

declare upgrade_loop.simps [simp del]

text \<open>The text \<open>reqdata\<close> that \<open>_upgrade\<close> builds, line by line as the source does.\<close>

definition reqdata :: "parsed_url \<Rightarrow> string" where
  "reqdata url =
     (let reqdata = ''GET /websockify HTTP/1.1'' @ CRLF;
          reqdata = reqdata @ (''Host: '' @ hostname url @ '':'' @ str_nat (port url) @ CRLF);
          reqdata = reqdata @ (''Upgrade: websocket'' @ CRLF @ ''Connection: Upgrade'' @ CRLF);
          reqdata = reqdata @ (''Cookie: '' @ query url @ CRLF);
          reqdata = reqdata @ (''Sec-WebSocket-Key: x3JJHMbDL1EzLkh9GBhXDw=='' @ CRLF);
          reqdata = reqdata @ (''Sec-WebSocket-Version: 13'' @ CRLF);
          reqdata = reqdata @ (''Sec-WebSocket-Protocol: binary'' @ CRLF @ CRLF)
      in reqdata)"

definition upgrade :: "parsed_url \<Rightarrow> websocket \<Rightarrow> (py_error + unit) \<times> websocket" where
  "upgrade url ws =
     (if has_socket ws then
        (case recv 4096 (sendall (encode_utf8 (reqdata url)) (sock ws)) of (data, s2) \<Rightarrow>
           (case upgrade_loop data data s2 of (resp, s3) \<Rightarrow>
              (Inr (), ws\<lparr>sock := s3, response := resp\<rparr>)))
      else (Inl AttributeError, ws))"

text \<open>The constructor \<open>__init__\<close>: keep the socket, then upgrade the connection.\<close>

definition init :: "tcp_socket \<Rightarrow> parsed_url \<Rightarrow> (py_error + unit) \<times> websocket" where
  "init client_socket url =
     upgrade url \<lparr>sock = client_socket, has_socket = True, response = []\<rparr>"

text \<open>
  The request as the interface description writes it: the request line and seven
  headers, each line ended by CR LF, and an empty line at the end. The host, the text
  of the port and the cookie are given; the port is written in decimal, which is said
  without reference to how the code prints it: a non-empty string of the digits 0 to 9,
  with no leading zero unless it is the single digit, whose value is the port.
\<close>

definition decimal_value :: "string \<Rightarrow> nat" where
  "decimal_value ds = foldl (\<lambda>acc c. 10 * acc + (of_char c - 48)) 0 ds"

definition is_decimal :: "string \<Rightarrow> nat \<Rightarrow> bool" where
  "is_decimal ds n \<longleftrightarrow>
     ds \<noteq> [] \<and> list_all (\<lambda>c. 48 \<le> (of_char c :: nat) \<and> (of_char c :: nat) \<le> 57) ds
     \<and> (1 < length ds \<longrightarrow> hd ds \<noteq> CHR ''0'') \<and> decimal_value ds = n"

definition upgrade_request :: "string \<Rightarrow> string \<Rightarrow> string \<Rightarrow> string" where
  "upgrade_request host port_text cookie =
     concat (map (\<lambda>line. line @ [CHR 0x0D, CHR 0x0A])
       [''GET /websockify HTTP/1.1'',
        ''Host: '' @ host @ '':'' @ port_text,
        ''Upgrade: websocket'',
        ''Connection: Upgrade'',
        ''Cookie: '' @ cookie,
        ''Sec-WebSocket-Key: x3JJHMbDL1EzLkh9GBhXDw=='',
        ''Sec-WebSocket-Version: 13'',
        ''Sec-WebSocket-Protocol: binary''])
     @ [CHR 0x0D, CHR 0x0A]"

text \<open>Concrete inputs for the examples.\<close>

definition fresh_socket :: "byte list list \<Rightarrow> tcp_socket" where
  "fresh_socket chunks = \<lparr>rx = chunks, ops = []\<rparr>"

definition open_ws :: "byte list list \<Rightarrow> websocket" where
  "open_ws chunks = \<lparr>sock = fresh_socket chunks, has_socket = True, response = []\<rparr>"

definition hello :: "byte list" where
  "hello = [0x68, 0x65, 0x6C, 0x6C, 0x6F]"

text \<open>
  The bytes of the request for the host \<open>h\<close>, the port 80 and the query \<open>token=x\<close>,
  written out.
\<close>

definition request_h80 :: "byte list" where
  "request_h80 =
     [71, 69, 84, 32, 47, 119, 101, 98, 115, 111, 99, 107, 105, 102, 121, 32,
      72, 84, 84, 80, 47, 49, 46, 49, 13, 10,
      72, 111, 115, 116, 58, 32, 104, 58, 56, 48, 13, 10,
      85, 112, 103, 114, 97, 100, 101, 58, 32, 119, 101, 98, 115, 111, 99, 107, 101, 116, 13, 10,
      67, 111, 110, 110, 101, 99, 116, 105, 111, 110, 58, 32, 85, 112, 103, 114, 97, 100, 101,
      13, 10,
      67, 111, 111, 107, 105, 101, 58, 32, 116, 111, 107, 101, 110, 61, 120, 13, 10,
      83, 101, 99, 45, 87, 101, 98, 83, 111, 99, 107, 101, 116, 45, 75, 101, 121, 58, 32,
      120, 51, 74, 74, 72, 77, 98, 68, 76, 49, 69, 122, 76, 107, 104, 57, 71, 66, 104, 88, 68,
      119, 61, 61, 13, 10,
      83, 101, 99, 45, 87, 101, 98, 83, 111, 99, 107, 101, 116, 45, 86, 101, 114, 115, 105,
      111, 110, 58, 32, 49, 51, 13, 10,
      83, 101, 99, 45, 87, 101, 98, 83, 111, 99, 107, 101, 116, 45, 80, 114, 111, 116, 111,
      99, 111, 108, 58, 32, 98, 105, 110, 97, 114, 121, 13, 10,
      13, 10]"

section \<open>Frame encoding\<close>

lemma length_frame_bytes: "length (frame_bytes data) = 6 + length data"
  by (simp add: frame_bytes_def mask_key_def)

lemma len_or_128: "n \<le> 125 \<Longrightarrow> 0 \<le> int n OR 128 \<and> int n OR 128 \<le> 255"
proof -
  assume "n \<le> 125"
  then have "int n < 2 ^ 8" by simp
  moreover have "(128::int) < 2 ^ 8" by simp
  ultimately have "int n OR 128 < 2 ^ 8"
    by (intro OR_upper) simp_all
  then show ?thesis by simp
qed

lemma mask_key_nth: "i < 4 \<Longrightarrow> 0 \<le> mask_key ! i \<and> mask_key ! i < 2 ^ 8"
proof -
  assume "i < 4"
  then consider "i = 0" | "i = 1" | "i = 2" | "i = 3" by linarith
  then show ?thesis by cases (simp_all add: mask_key_def)
qed

lemma masked_in_range: "0 \<le> ord_func b XOR mask_key ! (i mod 4) \<and> ord_func b XOR mask_key ! (i mod 4) \<le> 255"
proof -
  have m: "0 \<le> mask_key ! (i mod 4) \<and> mask_key ! (i mod 4) < 2 ^ 8"
    by (rule mask_key_nth) simp
  have "uint b < 2 ^ 8" using uint_bounded [of b] by simp
  then have "uint b XOR mask_key ! (i mod 4) < 2 ^ 8"
    using m by (intro XOR_upper) simp_all
  then show ?thesis using m by (simp add: ord_func_def)
qed

lemma frame_bytes_in_range:
  assumes "length data \<le> 125"
  shows "list_all (\<lambda>v. 0 \<le> v \<and> v \<le> 255) (frame_bytes data)"
proof -
  have "list_all (\<lambda>v. 0 \<le> v \<and> v \<le> 255)
          (map (\<lambda>i. ord_func (data ! i) XOR mask_key ! (i mod 4)) [0..<length data])"
    unfolding list_all_iff using masked_in_range by auto
  moreover have "list_all (\<lambda>v. 0 \<le> v \<and> v \<le> 255) (map (\<lambda>i. mask_key ! i) [0..<length mask_key])"
    by (simp add: mask_key_def upt_rec)
  ultimately show ?thesis
    using len_or_128 [OF assms] by (simp add: frame_bytes_def)
qed

lemma word_of_mask_key: "i < 4 \<Longrightarrow> (word_of_int (mask_key ! i) :: byte) = [7, 2, 1, 9] ! i"
proof -
  assume "i < 4"
  then consider "i = 0" | "i = 1" | "i = 2" | "i = 3" by linarith
  then show ?thesis by cases (simp_all add: mask_key_def)
qed

lemma word_of_masked:
  "(word_of_int (ord_func b XOR mask_key ! (i mod 4)) :: byte) = b XOR [7, 2, 1, 9] ! (i mod 4)"
proof -
  have "(word_of_int (uint b XOR mask_key ! (i mod 4)) :: byte)
          = word_of_int (uint b) XOR word_of_int (mask_key ! (i mod 4))"
    by (simp only: word_wi_log_defs)
  then show ?thesis
    by (simp add: ord_func_def word_of_mask_key)
qed

lemma word_of_len_or_128: "(word_of_int (int n OR 128) :: byte) = 0x80 OR of_nat n"
proof -
  have "(word_of_int (int n OR 128) :: byte) = word_of_int (int n) OR word_of_int 128"
    by (simp only: word_wi_log_defs)
  then show ?thesis by (simp add: or.commute)
qed

text \<open>The packed frame, as one list.\<close>

lemma packed_frame:
  assumes "length data \<le> 125"
  shows "struct_pack_B (frame_bytes data) =
           Inr ([0x82, 0x80 OR of_nat (length data)] @ [7, 2, 1, 9]
                @ map (\<lambda>i. data ! i XOR [7, 2, 1, 9] ! (i mod 4)) [0..<length data])"
proof -
  have key: "map (\<lambda>i. mask_key ! i) [0..<length mask_key] = [7, 2, 1, 9]"
    by (simp add: mask_key_def upt_rec)
  have "map word_of_int (frame_bytes data) =
          ([0x82, 0x80 OR of_nat (length data)] @ [7, 2, 1, 9]
           @ map (\<lambda>i. data ! i XOR [7, 2, 1, 9] ! (i mod 4)) [0..<length data] :: byte list)"
    unfolding frame_bytes_def key by (simp add: word_of_masked word_of_len_or_128)
  then show ?thesis
    using frame_bytes_in_range [OF assms] by (simp add: struct_pack_B_def)
qed

text \<open>
  C1. For every payload \<open>P\<close> of at most 125 bytes, \<open>send_frame P\<close> on an open connection
  makes one \<open>sendall\<close> of a frame of exactly \<open>2 + 4 + length P\<close> bytes: byte 0 is \<open>0x82\<close>,
  byte 1 is \<open>0x80 OR length P\<close>, bytes 2 to 5 are the mask 7, 2, 1, 9, and byte
  \<open>6 + i\<close> is \<open>P ! i XOR mask ! (i mod 4)\<close>. Nothing else changes.
\<close>

theorem send_frame_layout:
  assumes "has_socket ws" and "length P \<le> 125"
  shows "\<exists>frame.
           send_frame P ws
             = (Inr (), ws\<lparr>sock := (sock ws)\<lparr>ops := ops (sock ws) @ [Sendall frame]\<rparr>\<rparr>)
         \<and> length frame = 2 + 4 + length P
         \<and> frame ! 0 = 0x82
         \<and> frame ! 1 = 0x80 OR of_nat (length P)
         \<and> take 4 (drop 2 frame) = [7, 2, 1, 9]
         \<and> (\<forall>i<length P. frame ! (6 + i) = P ! i XOR [7, 2, 1, 9] ! (i mod 4))"
proof -
  let ?payload = "map (\<lambda>i. P ! i XOR ([7, 2, 1, 9] :: byte list) ! (i mod 4)) [0..<length P]"
  let ?frame = "[0x82, 0x80 OR of_nat (length P)] @ [7, 2, 1, 9] @ ?payload"
  have sent: "send_frame P ws
                = (Inr (), ws\<lparr>sock := (sock ws)\<lparr>ops := ops (sock ws) @ [Sendall ?frame]\<rparr>\<rparr>)"
    using assms(1) packed_frame [OF assms(2)] by (simp add: send_frame_def sendall_def)
  have len: "length ?frame = 2 + 4 + length P" by simp
  have b0: "?frame ! 0 = 0x82" by simp
  have b1: "?frame ! 1 = 0x80 OR of_nat (length P)" by simp
  have key: "take 4 (drop 2 ?frame) = [7, 2, 1, 9]" by simp
  have body: "\<forall>i<length P. ?frame ! (6 + i) = P ! i XOR [7, 2, 1, 9] ! (i mod 4)"
  proof (intro allI impI)
    fix i assume i: "i < length P"
    have "?frame ! (6 + i) = ?payload ! i"
      by (simp add: nth_append nth_Cons')
    then show "?frame ! (6 + i) = P ! i XOR [7, 2, 1, 9] ! (i mod 4)"
      using i by simp
  qed
  from sent len b0 b1 key body show ?thesis by blast
qed

theorem send_frame_layout_witness:
  "has_socket (open_ws []) \<and> length hello \<le> 125
   \<and> (\<exists>frame.
         send_frame hello (open_ws [])
           = (Inr (), (open_ws [])\<lparr>sock := (sock (open_ws []))\<lparr>ops := ops (sock (open_ws [])) @ [Sendall frame]\<rparr>\<rparr>)
       \<and> length frame = 2 + 4 + length hello
       \<and> frame ! 0 = 0x82
       \<and> frame ! 1 = 0x80 OR of_nat (length hello)
       \<and> take 4 (drop 2 frame) = [7, 2, 1, 9]
       \<and> (\<forall>i<length hello. frame ! (6 + i) = hello ! i XOR [7, 2, 1, 9] ! (i mod 4)))"
proof -
  have h1: "has_socket (open_ws [])" by (simp add: open_ws_def)
  have h2: "length hello \<le> 125" by (simp add: hello_def)
  from send_frame_layout [OF h1 h2] h1 h2 show ?thesis by blast
qed

section \<open>Receiving a frame\<close>

lemma length_recv: "length (fst (recv n s)) \<le> n"
  by (cases "rx s") (simp_all add: recv_def)

lemma low7_nonneg: "0 \<le> ord_func b AND 127"
  by (simp add: ord_func_def)

lemma receive_loop_closed:
  "fst (recv 2 s) = [] \<Longrightarrow> receive_loop s = (Inr None, snd (recv 2 s))"
  by (subst receive_loop.simps) (simp add: case_prod_beta)

lemma receive_loop_short:
  "length (fst (recv 2 s)) = 1 \<Longrightarrow> receive_loop s = (Inl IndexError, snd (recv 2 s))"
  by (subst receive_loop.simps) (auto simp: case_prod_beta getitem_def)

lemma receive_loop_skip:
  "empty_header (fst (recv 2 s)) \<Longrightarrow> receive_loop s = receive_loop (snd (recv 2 s))"
  by (subst receive_loop.simps) (auto simp: case_prod_beta getitem_def empty_header_def)

lemma receive_loop_frame:
  "length (fst (recv 2 s)) = 2 \<Longrightarrow> 0 < ord_func (fst (recv 2 s) ! 1) AND 127 \<Longrightarrow>
   receive_loop s =
     (Inr (Some (fst (recv (nat (ord_func (fst (recv 2 s) ! 1) AND 127)) (snd (recv 2 s))))),
      snd (recv (nat (ord_func (fst (recv 2 s) ! 1) AND 127)) (snd (recv 2 s))))"
  by (subst receive_loop.simps) (auto simp: case_prod_beta getitem_def)

lemma recvs_Suc:
  "recvs n (Suc k) s = (fst (recv n s) # fst (recvs n k (snd (recv n s))), snd (recvs n k (snd (recv n s))))"
  by (simp add: case_prod_beta)

declare recvs.simps(2) [simp del]

lemma receive_loop_skips:
  "list_all empty_header (fst (recvs 2 k s)) \<Longrightarrow> receive_loop s = receive_loop (snd (recvs 2 k s))"
proof (induction k arbitrary: s)
  case 0
  then show ?case by simp
next
  case (Suc k)
  from Suc.prems have h: "empty_header (fst (recv 2 s))"
    and t: "list_all empty_header (fst (recvs 2 k (snd (recv 2 s))))"
    by (simp_all add: recvs_Suc)
  have "receive_loop s = receive_loop (snd (recv 2 s))"
    using h by (rule receive_loop_skip)
  also have "\<dots> = receive_loop (snd (recvs 2 k (snd (recv 2 s))))"
    using t by (rule Suc.IH)
  finally show ?case by (simp add: recvs_Suc)
qed

lemma receive_loop_error:
  "fst (receive_loop s) = Inl e \<Longrightarrow>
     e = IndexError \<and>
     (\<exists>k. list_all empty_header (fst (recvs 2 k s))
          \<and> length (fst (recv 2 (snd (recvs 2 k s)))) = 1)"
proof (induction s rule: receive_loop.induct)
  case (1 s)
  let ?h = "fst (recv 2 s)" and ?s1 = "snd (recv 2 s)"
  have len: "length ?h \<le> 2" by (rule length_recv)
  consider (closed) "?h = []" | (short) "length ?h = 1"
    | (frame) "length ?h = 2" "0 < ord_func (?h ! 1) AND 127"
    | (skip) "length ?h = 2" "ord_func (?h ! 1) AND 127 = 0"
  proof -
    have "length ?h = 0 \<or> length ?h = 1 \<or> length ?h = 2" using len by linarith
    moreover have "0 < ord_func (?h ! 1) AND 127 \<or> ord_func (?h ! 1) AND 127 = 0"
      using low7_nonneg [of "?h ! 1"] by linarith
    ultimately show thesis using closed short frame skip by fastforce
  qed
  then show ?case
  proof cases
    case closed
    with "1.prems" show ?thesis by (simp add: receive_loop_closed)
  next
    case short
    with "1.prems" have "e = IndexError" by (simp add: receive_loop_short)
    moreover have "list_all empty_header (fst (recvs 2 0 s)) \<and> length (fst (recv 2 (snd (recvs 2 0 s)))) = 1"
      using short by simp
    ultimately show ?thesis by blast
  next
    case frame
    with "1.prems" show ?thesis by (simp add: receive_loop_frame)
  next
    case skip
    then have eh: "empty_header ?h" by (simp add: empty_header_def)
    have g: "getitem ?h 1 = Inr (?h ! 1)" using skip by (simp add: getitem_def)
    have r: "fst (receive_loop ?s1) = Inl e"
      using "1.prems" receive_loop_skip [OF eh] by simp
    have "e = IndexError \<and>
      (\<exists>k. list_all empty_header (fst (recvs 2 k ?s1)) \<and> length (fst (recv 2 (snd (recvs 2 k ?s1)))) = 1)"
      by (rule "1.IH" [of ?h ?s1 "?h ! 1"]) (use skip g r in simp_all)
    then obtain k where "e = IndexError" "list_all empty_header (fst (recvs 2 k ?s1))"
      "length (fst (recv 2 (snd (recvs 2 k ?s1)))) = 1" by blast
    then have "list_all empty_header (fst (recvs 2 (Suc k) s)) \<and> length (fst (recv 2 (snd (recvs 2 (Suc k) s)))) = 1"
      using eh by (simp add: recvs_Suc)
    with \<open>e = IndexError\<close> show ?thesis by blast
  qed
qed

lemma receive_frame_open:
  "has_socket ws \<Longrightarrow>
   receive_frame ws = (fst (receive_loop (sock ws)), ws\<lparr>sock := snd (receive_loop (sock ws))\<rparr>)"
  by (simp add: receive_frame_def case_prod_beta)

lemma recv_ops: "ops (snd (recv n s)) = ops s @ [Recv n (fst (recv n s))]"
  by (cases "rx s") (simp_all add: recv_def)

lemma recv_enough:
  "rx s = c # cs \<Longrightarrow> n \<le> length c \<Longrightarrow> fst (recv n s) = take n c \<and> length (fst (recv n s)) = n"
  by (simp add: recv_def)

text \<open>
  C3. Let the first \<open>k\<close> header reads of \<open>receive_frame\<close> return headers of empty frames
  (the claim has \<open>k = 1\<close>). If the next header read returns a header announcing
  \<open>N \<ge> 1\<close> bytes, in particular any \<open>N\<close> in 1..125, and the transport then delivers \<open>N\<close>
  payload bytes \<open>p\<close>, then \<open>receive_frame\<close> returns \<open>p\<close>: the empty frames are skipped. If the
  next header read returns zero bytes instead, the loop ends with \<open>None\<close>. So the loop
  goes on exactly until a header of non-zero length or a read of zero bytes.
\<close>

theorem receive_frame_skips_empty:
  assumes "has_socket ws"
    and "recvs 2 k (sock ws) = (zs, s1)" and "list_all empty_header zs"
  shows "(recv 2 s1 = (h, s2) \<and> length h = 2 \<and> ord_func (h ! 1) AND 127 = int N \<and> 1 \<le> N
            \<and> recv N s2 = (p, s3) \<and> length p = N
          \<longrightarrow> receive_frame ws = (Inr (Some p), ws\<lparr>sock := s3\<rparr>))
       \<and> (recv 2 s1 = ([], s2) \<longrightarrow> receive_frame ws = (Inr None, ws\<lparr>sock := s2\<rparr>))"
proof -
  have skip: "receive_loop (sock ws) = receive_loop s1"
    using receive_loop_skips [of k "sock ws"] assms(2,3) by simp
  have frame: "receive_frame ws = (Inr (Some p), ws\<lparr>sock := s3\<rparr>)"
    if "recv 2 s1 = (h, s2)" "length h = 2" "ord_func (h ! 1) AND 127 = int N" "1 \<le> N"
       "recv N s2 = (p, s3)" "length p = N"
  proof -
    have "receive_loop s1 = (Inr (Some p), s3)"
      using receive_loop_frame [of s1] that by simp
    then show ?thesis
      using assms(1) skip by (simp add: receive_frame_open)
  qed
  have closed: "receive_frame ws = (Inr None, ws\<lparr>sock := s2\<rparr>)" if "recv 2 s1 = ([], s2)"
    using receive_loop_closed [of s1] that assms(1) skip by (simp add: receive_frame_open)
  from frame closed show ?thesis by blast
qed

theorem receive_frame_skips_empty_witness:
  "receive_frame (open_ws [[0x82, 0], [0x82, 3], [1, 2, 3], [0x82, 1]])
     = (Inr (Some [1, 2, 3]),
        (open_ws [[0x82, 0], [0x82, 3], [1, 2, 3], [0x82, 1]])
          \<lparr>sock := \<lparr>rx = [[0x82, 1]],
                     ops = [Recv 2 [0x82, 0], Recv 2 [0x82, 3], Recv 3 [1, 2, 3]]\<rparr>\<rparr>)"
proof -
  let ?ws = "open_ws [[0x82, 0], [0x82, 3], [1, 2, 3], [0x82, 1]]"
  let ?s1 = "\<lparr>rx = [[0x82, 3], [1, 2, 3], [0x82, 1]], ops = [Recv 2 [0x82, 0]]\<rparr> :: tcp_socket"
  let ?s2 = "\<lparr>rx = [[1, 2, 3], [0x82, 1]], ops = [Recv 2 [0x82, 0], Recv 2 [0x82, 3]]\<rparr> :: tcp_socket"
  let ?s3 = "\<lparr>rx = [[0x82, 1]], ops = [Recv 2 [0x82, 0], Recv 2 [0x82, 3], Recv 3 [1, 2, 3]]\<rparr> :: tcp_socket"
  have a: "has_socket ?ws" by (simp add: open_ws_def)
  have b: "recvs 2 1 (sock ?ws) = ([[0x82, 0]], ?s1)"
    by (simp add: recvs_Suc recv_def open_ws_def fresh_socket_def)
  have c: "list_all empty_header [[0x82, 0]]"
    by (simp add: empty_header_def ord_func_def)
  have d: "recv 2 ?s1 = ([0x82, 3], ?s2) \<and> length [0x82, 3 :: byte] = 2
           \<and> ord_func ([0x82, 3] ! 1) AND 127 = int 3 \<and> 1 \<le> (3::nat)
           \<and> recv 3 ?s2 = ([1, 2, 3], ?s3) \<and> length [1, 2, 3 :: byte] = 3"
    by (simp add: recv_def ord_func_def)
  from receive_frame_skips_empty [OF a b c, of "[0x82, 3]" ?s2 3 "[1, 2, 3]" ?s3] d
  show ?thesis by blast
qed


text \<open>
  C4. Whenever a header read of \<open>receive_frame\<close> returns zero bytes, be it the first one
  or one after any number \<open>k\<close> of empty frames, \<open>receive_frame\<close> returns \<open>None\<close>: it raises
  nothing, and \<open>None\<close> is not the empty byte string \<open>Some []\<close>.
\<close>

theorem receive_frame_peer_closed:
  assumes "has_socket ws"
    and "recvs 2 k (sock ws) = (zs, s1)" and "list_all empty_header zs"
    and "recv 2 s1 = ([], s2)"
  shows "receive_frame ws = (Inr None, ws\<lparr>sock := s2\<rparr>)
       \<and> \<not> isl (fst (receive_frame ws))
       \<and> fst (receive_frame ws) \<noteq> Inr (Some [])"
proof -
  have "receive_loop (sock ws) = receive_loop s1"
    using receive_loop_skips [of k "sock ws"] assms(2,3) by simp
  also have "\<dots> = (Inr None, s2)"
    using receive_loop_closed [of s1] assms(4) by simp
  finally have "receive_frame ws = (Inr None, ws\<lparr>sock := s2\<rparr>)"
    using assms(1) by (simp add: receive_frame_open)
  then show ?thesis by simp
qed

theorem receive_frame_peer_closed_witness:
  "receive_frame (open_ws [[0x82, 0], [0x82, 0x80]])
     = (Inr None,
        (open_ws [[0x82, 0], [0x82, 0x80]])
          \<lparr>sock := \<lparr>rx = [], ops = [Recv 2 [0x82, 0], Recv 2 [0x82, 0x80], Recv 2 []]\<rparr>\<rparr>)
   \<and> \<not> isl (fst (receive_frame (open_ws [[0x82, 0], [0x82, 0x80]])))
   \<and> fst (receive_frame (open_ws [[0x82, 0], [0x82, 0x80]])) \<noteq> Inr (Some [])"
proof -
  let ?ws = "open_ws [[0x82, 0], [0x82, 0x80]]"
  let ?s1 = "\<lparr>rx = [], ops = [Recv 2 [0x82, 0], Recv 2 [0x82, 0x80]]\<rparr> :: tcp_socket"
  let ?s2 = "\<lparr>rx = [], ops = [Recv 2 [0x82, 0], Recv 2 [0x82, 0x80], Recv 2 []]\<rparr> :: tcp_socket"
  have a: "has_socket ?ws" by (simp add: open_ws_def)
  have b: "recvs 2 (Suc (Suc 0)) (sock ?ws) = ([[0x82, 0], [0x82, 0x80]], ?s1)"
    by (simp add: recvs_Suc recv_def open_ws_def fresh_socket_def)
  have c: "list_all empty_header [[0x82, 0], [0x82, 0x80]]"
    by (simp add: empty_header_def ord_func_def)
  have d: "recv 2 ?s1 = ([], ?s2)"
    by (simp add: recv_def)
  from receive_frame_peer_closed [OF a b c d] show ?thesis .
qed

text \<open>
  C5, as stated, fails. The header announces 3 bytes and the transport delivers the
  payload 1, 2, 3 in two parts, first 1 and then 2, 3. \<open>receive_frame\<close> makes a single
  \<open>recv 3\<close> and returns what that one call returned, the byte 1 alone; the bytes 2, 3
  stay in the transport.
\<close>

theorem receive_frame_partial_payload_counterexample:
  "fst (receive_frame (open_ws [[0x82, 3], [1], [2, 3]])) = Inr (Some [1])
   \<and> fst (receive_frame (open_ws [[0x82, 3], [1], [2, 3]])) \<noteq> Inr (Some [1, 2, 3])
   \<and> rx (sock (snd (receive_frame (open_ws [[0x82, 3], [1], [2, 3]])))) = [[2, 3]]"
proof -
  let ?s = "fresh_socket [[0x82, 3], [1], [2, 3]]"
  have h: "recv 2 ?s = ([0x82, 3], \<lparr>rx = [[1], [2, 3]], ops = [Recv 2 [0x82, 3]]\<rparr>)"
    by (simp add: recv_def fresh_socket_def)
  have "receive_loop ?s = (Inr (Some [1]), \<lparr>rx = [[2, 3]], ops = [Recv 2 [0x82, 3], Recv 3 [1]]\<rparr>)"
    using receive_loop_frame [of ?s] unfolding h by (simp add: ord_func_def recv_def)
  then show ?thesis
    by (simp add: receive_frame_def open_ws_def)
qed

text \<open>
  C5, amended. After a header whose decoded length \<open>L\<close> is greater than 0,
  \<open>receive_frame\<close> makes exactly one \<open>recv L\<close> and returns its result \<open>p\<close> as it is, with
  no unmasking. \<open>p\<close> has at most \<open>L\<close> bytes, and it is exactly the next \<open>L\<close> bytes whenever
  the transport has at least \<open>L\<close> bytes to deliver in that read.
\<close>

theorem receive_frame_single_read:
  assumes "has_socket ws"
    and "recvs 2 k (sock ws) = (zs, s1)" and "list_all empty_header zs"
    and "recv 2 s1 = (h, s2)" and "length h = 2"
    and "L = nat (ord_func (h ! 1) AND 127)" and "0 < L"
    and "recv L s2 = (p, s3)"
  shows "receive_frame ws = (Inr (Some p), ws\<lparr>sock := s3\<rparr>)
       \<and> ops s3 = ops s2 @ [Recv L p]
       \<and> length p \<le> L
       \<and> (\<forall>c cs. rx s2 = c # cs \<and> L \<le> length c \<longrightarrow> p = take L c \<and> length p = L)"
proof -
  have "receive_loop (sock ws) = receive_loop s1"
    using receive_loop_skips [of k "sock ws"] assms(2,3) by simp
  also have "\<dots> = (Inr (Some p), s3)"
    using receive_loop_frame [of s1] assms(4-8) by simp
  finally have r: "receive_frame ws = (Inr (Some p), ws\<lparr>sock := s3\<rparr>)"
    using assms(1) by (simp add: receive_frame_open)
  have o: "ops s3 = ops s2 @ [Recv L p]"
    using recv_ops [of L s2] assms(8) by simp
  have l: "length p \<le> L"
    using length_recv [of L s2] assms(8) by simp
  have e: "\<forall>c cs. rx s2 = c # cs \<and> L \<le> length c \<longrightarrow> p = take L c \<and> length p = L"
    using recv_enough [of s2 _ _ L] assms(8) by auto
  from r o l e show ?thesis by blast
qed

theorem receive_frame_single_read_witness:
  "receive_frame (open_ws [[0x82, 3, 1, 2, 3, 4], [5]])
     = (Inr (Some [1, 2, 3]),
        (open_ws [[0x82, 3, 1, 2, 3, 4], [5]])
          \<lparr>sock := \<lparr>rx = [[4], [5]], ops = [Recv 2 [0x82, 3], Recv 3 [1, 2, 3]]\<rparr>\<rparr>)"
proof -
  let ?ws = "open_ws [[0x82, 3, 1, 2, 3, 4], [5]]"
  let ?s2 = "\<lparr>rx = [[1, 2, 3, 4], [5]], ops = [Recv 2 [0x82, 3]]\<rparr> :: tcp_socket"
  let ?s3 = "\<lparr>rx = [[4], [5]], ops = [Recv 2 [0x82, 3], Recv 3 [1, 2, 3]]\<rparr> :: tcp_socket"
  have a: "has_socket ?ws" by (simp add: open_ws_def)
  have b: "recvs 2 0 (sock ?ws) = ([], sock ?ws)" by simp
  have c: "list_all empty_header []" by simp
  have d: "recv 2 (sock ?ws) = ([0x82, 3], ?s2)"
    by (simp add: recv_def open_ws_def fresh_socket_def)
  have e: "length [0x82, 3 :: byte] = 2" by simp
  have f: "(3::nat) = nat (ord_func ([0x82, 3] ! 1) AND 127)" by (simp add: ord_func_def)
  have g: "0 < (3::nat)" by simp
  have i: "recv 3 ?s2 = ([1, 2, 3], ?s3)" by (simp add: recv_def)
  from receive_frame_single_read [OF a b c d e f g i] show ?thesis by blast
qed

text \<open>
  C10. On an open connection \<open>receive_frame\<close> raises \<open>IndexError\<close> exactly when some
  header read (the first, or one after \<open>k\<close> empty frames) returns exactly one byte:
  the second header byte is then read out of bounds, and neither \<open>None\<close> nor a frame is
  returned. It raises nothing else, so it is free of out-of-bounds indexing exactly
  when every header read returns 0 or 2 bytes.
\<close>

theorem receive_frame_short_header:
  assumes "has_socket ws"
  shows "(fst (receive_frame ws) = Inl IndexError
            \<longleftrightarrow> (\<exists>k. list_all empty_header (fst (recvs 2 k (sock ws)))
                     \<and> length (fst (recv 2 (snd (recvs 2 k (sock ws))))) = 1))
       \<and> (isl (fst (receive_frame ws)) \<longrightarrow> fst (receive_frame ws) = Inl IndexError)"
proof -
  have r: "fst (receive_frame ws) = fst (receive_loop (sock ws))"
    using assms by (simp add: receive_frame_open)
  have fails: "fst (receive_loop (sock ws)) = Inl IndexError"
    if "list_all empty_header (fst (recvs 2 k (sock ws)))"
       "length (fst (recv 2 (snd (recvs 2 k (sock ws))))) = 1" for k
    using receive_loop_skips [OF that(1)] receive_loop_short [OF that(2)] by simp
  have only: "e = IndexError \<and> (\<exists>k. list_all empty_header (fst (recvs 2 k (sock ws)))
                     \<and> length (fst (recv 2 (snd (recvs 2 k (sock ws))))) = 1)"
    if "fst (receive_loop (sock ws)) = Inl e" for e
    using that by (rule receive_loop_error)
  have "isl (fst (receive_loop (sock ws))) \<longrightarrow> fst (receive_loop (sock ws)) = Inl IndexError"
    using only by (cases "fst (receive_loop (sock ws))") auto
  moreover have "fst (receive_loop (sock ws)) = Inl IndexError
            \<longleftrightarrow> (\<exists>k. list_all empty_header (fst (recvs 2 k (sock ws)))
                     \<and> length (fst (recv 2 (snd (recvs 2 k (sock ws))))) = 1)"
    using fails only by blast
  ultimately show ?thesis using r by simp
qed

theorem receive_frame_short_header_witness:
  "has_socket (open_ws [[0x82, 0], [0x82]])
   \<and> list_all empty_header (fst (recvs 2 1 (sock (open_ws [[0x82, 0], [0x82]]))))
   \<and> length (fst (recv 2 (snd (recvs 2 1 (sock (open_ws [[0x82, 0], [0x82]])))))) = 1
   \<and> fst (receive_frame (open_ws [[0x82, 0], [0x82]])) = Inl IndexError"
proof -
  let ?ws = "open_ws [[0x82, 0], [0x82]]"
  have a: "has_socket ?ws" by (simp add: open_ws_def)
  have b: "list_all empty_header (fst (recvs 2 1 (sock ?ws)))"
    by (simp add: recvs_Suc recv_def open_ws_def fresh_socket_def empty_header_def ord_func_def)
  have c: "length (fst (recv 2 (snd (recvs 2 1 (sock ?ws))))) = 1"
    by (simp add: recvs_Suc recv_def open_ws_def fresh_socket_def)
  from receive_frame_short_header [OF a] a b c show ?thesis by blast
qed

section \<open>Closing\<close>

text \<open>
  C6, as stated, fails. \<open>close\<close> calls \<open>shutdown(1)\<close>, and 1 is \<open>SHUT_WR\<close>: only the sending
  direction is shut down. A shutdown of both directions would be \<open>shutdown(2)\<close>.
\<close>

theorem close_shutdown_counterexample:
  "has_socket (open_ws [])
   \<and> ops (sock (snd (close (open_ws [])))) = [Shutdown SHUT_WR, Close]
   \<and> ops (sock (snd (close (open_ws [])))) \<noteq> [Shutdown SHUT_RDWR, Close]
   \<and> shut_directions SHUT_WR \<noteq> {Receiving, Sending}"
  by (simp add: close_def open_ws_def fresh_socket_def shutdown_def close_socket_def
        SHUT_WR_def SHUT_RDWR_def SHUT_RD_def shut_directions_def)

text \<open>
  C6, amended. On a call with an open socket, \<open>close\<close> shuts down the sending direction
  of the socket (\<open>shutdown(1)\<close>, that is \<open>SHUT_WR\<close>), then closes the socket, and sets
  \<open>self._socket\<close> to \<open>None\<close>.
\<close>

theorem close_first_call:
  assumes "has_socket ws"
  shows "close ws
           = (Inr (), ws\<lparr>sock := (sock ws)\<lparr>ops := ops (sock ws) @ [Shutdown SHUT_WR, Close]\<rparr>,
                         has_socket := False\<rparr>)
       \<and> shut_directions SHUT_WR = {Sending}"
  using assms
  by (simp add: close_def shutdown_def close_socket_def SHUT_WR_def SHUT_RD_def shut_directions_def)

theorem close_first_call_witness:
  "has_socket (open_ws [[1]])
   \<and> close (open_ws [[1]])
       = (Inr (), \<lparr>sock = \<lparr>rx = [[1]], ops = [Shutdown SHUT_WR, Close]\<rparr>,
                   has_socket = False, response = []\<rparr>)"
proof -
  have a: "has_socket (open_ws [[1]])" by (simp add: open_ws_def)
  from close_first_call [OF a] a show ?thesis
    by (simp add: open_ws_def fresh_socket_def)
qed

text \<open>
  C9. After a call of \<open>close\<close> the socket reference is \<open>None\<close>, and a further call returns
  normally and leaves the whole state as it is, the record of socket operations
  included; so does any number of further calls.
\<close>

theorem close_idempotent:
  "\<not> has_socket (snd (close ws))
   \<and> close (snd (close ws)) = (Inr (), snd (close ws))
   \<and> ((snd \<circ> close) ^^ Suc n) ws = snd (close ws)"
proof -
  have a: "\<not> has_socket (snd (close ws))" by (simp add: close_def)
  have b: "close w = (Inr (), w)" if "\<not> has_socket w" for w
    using that by (simp add: close_def)
  have c: "((snd \<circ> close) ^^ Suc n) ws = snd (close ws)"
  proof (induction n)
    case 0
    show ?case by simp
  next
    case (Suc n)
    have "((snd \<circ> close) ^^ Suc (Suc n)) ws = snd (close (((snd \<circ> close) ^^ Suc n) ws))"
      by simp
    also have "\<dots> = snd (close (snd (close ws)))" by (simp only: Suc.IH)
    also have "\<dots> = snd (close ws)" using b [OF a] by simp
    finally show ?case .
  qed
  from a b [OF a] c show ?thesis by blast
qed

section \<open>The handshake\<close>

lemma prefix_take_eq: "prefix sub ys \<longleftrightarrow> take (length sub) ys = sub"
  by (metis append_eq_conv_conj prefix_def take_is_prefix)

lemma find_from_neg: "find_from i bs sub < 0 \<longleftrightarrow> \<not> sublist sub bs"
proof (induction bs arbitrary: i)
  case Nil
  then show ?case by simp
next
  case (Cons x xs)
  show ?case
    using Cons.IH [of "Suc i"] 
    by (simp add: sublist_Cons_right prefix_take_eq del: take_Suc_Cons)
qed

lemma bytes_find_neg: "bytes_find bs sub < 0 \<longleftrightarrow> \<not> sublist sub bs"
  by (simp add: bytes_find_def find_from_neg)

lemma recv_whole:
  "rx s = c # cs \<Longrightarrow> length c \<le> n \<Longrightarrow>
   recv n s = (c, s\<lparr>rx := cs, ops := ops s @ [Recv n c]\<rparr>)"
  by (simp add: recv_def)

lemma recv_closed:
  "rx s = rest \<Longrightarrow> rest = [] \<or> hd rest = [] \<Longrightarrow>
   recv n s = ([], s\<lparr>rx := tl rest, ops := ops s @ [Recv n []]\<rparr>)"
  by (cases rest) (auto simp: recv_def)

lemma upgrade_loop_stop:
  "data = [] \<or> sublist terminator resp \<Longrightarrow> upgrade_loop data resp s = (resp, s)"
  by (subst upgrade_loop.simps) (auto simp: bytes_find_neg)

lemma upgrade_loop_step:
  "data \<noteq> [] \<Longrightarrow> \<not> sublist terminator resp \<Longrightarrow>
   upgrade_loop data resp s
     = upgrade_loop (fst (recv 4096 s)) (resp @ fst (recv 4096 s)) (snd (recv 4096 s))"
  by (subst upgrade_loop.simps) (simp add: bytes_find_neg case_prod_beta)

lemma upgrade_loop_run:
  assumes "rx s = cs @ rest"
    and "\<forall>c\<in>set cs. c \<noteq> [] \<and> length c \<le> 4096"
    and "data \<noteq> []"
    and "\<forall>j<length cs. \<not> sublist terminator (resp @ concat (take j cs))"
    and "sublist terminator (resp @ concat cs)"
  shows "upgrade_loop data resp s
           = (resp @ concat cs, s\<lparr>rx := rest, ops := ops s @ map (Recv 4096) cs\<rparr>)"
  using assms
proof (induction cs arbitrary: data resp s)
  case Nil
  then show ?case by (simp add: upgrade_loop_stop)
next
  case (Cons c cs)
  let ?s' = "s\<lparr>rx := cs @ rest, ops := ops s @ [Recv 4096 c]\<rparr>"
  have r: "recv 4096 s = (c, ?s')"
    using Cons.prems(1,2) by (simp add: recv_whole)
  have no: "\<not> sublist terminator resp"
    using Cons.prems(4) by force
  have step: "upgrade_loop data resp s = upgrade_loop c (resp @ c) ?s'"
    using upgrade_loop_step [OF Cons.prems(3) no, of s] by (simp add: r)
  have later: "\<forall>j<length cs. \<not> sublist terminator ((resp @ c) @ concat (take j cs))"
  proof (intro allI impI)
    fix j assume "j < length cs"
    then have "Suc j < length (c # cs)" by simp
    then have "\<not> sublist terminator (resp @ concat (take (Suc j) (c # cs)))"
      using Cons.prems(4) by blast
    then show "\<not> sublist terminator ((resp @ c) @ concat (take j cs))" by simp
  qed
  have "upgrade_loop c (resp @ c) ?s'
          = ((resp @ c) @ concat cs, ?s'\<lparr>rx := rest, ops := ops ?s' @ map (Recv 4096) cs\<rparr>)"
  proof (rule Cons.IH)
    show "rx ?s' = cs @ rest" by simp
    show "\<forall>c\<in>set cs. c \<noteq> [] \<and> length c \<le> 4096" using Cons.prems(2) by simp
    show "c \<noteq> []" using Cons.prems(2) by simp
    show "\<forall>j<length cs. \<not> sublist terminator ((resp @ c) @ concat (take j cs))" by (rule later)
    show "sublist terminator ((resp @ c) @ concat cs)" using Cons.prems(5) by simp
  qed
  with step show ?case by simp
qed

lemma upgrade_loop_closed:
  assumes "rx s = cs @ rest" and "rest = [] \<or> hd rest = []"
    and "\<forall>c\<in>set cs. c \<noteq> [] \<and> length c \<le> 4096"
    and "data \<noteq> []"
    and "\<not> sublist terminator (resp @ concat cs)"
  shows "upgrade_loop data resp s
           = (resp @ concat cs, s\<lparr>rx := tl rest, ops := ops s @ map (Recv 4096) (cs @ [[]])\<rparr>)"
  using assms
proof (induction cs arbitrary: data resp s)
  case Nil
  have r: "recv 4096 s = ([], s\<lparr>rx := tl rest, ops := ops s @ [Recv 4096 []]\<rparr>)"
    using Nil.prems(1,2) by (simp add: recv_closed)
  have no: "\<not> sublist terminator resp" using Nil.prems(5) by simp
  show ?case
    using upgrade_loop_step [OF Nil.prems(4) no, of s] by (simp add: r upgrade_loop_stop)
next
  case (Cons c cs)
  let ?s' = "s\<lparr>rx := cs @ rest, ops := ops s @ [Recv 4096 c]\<rparr>"
  have r: "recv 4096 s = (c, ?s')"
    using Cons.prems(1,3) by (simp add: recv_whole)
  have no: "\<not> sublist terminator resp"
  proof
    assume "sublist terminator resp"
    then have "sublist terminator (resp @ concat (c # cs))"
      by (simp add: sublist_append)
    with Cons.prems(5) show False by simp
  qed
  have step: "upgrade_loop data resp s = upgrade_loop c (resp @ c) ?s'"
    using upgrade_loop_step [OF Cons.prems(4) no, of s] by (simp add: r)
  have "upgrade_loop c (resp @ c) ?s'
          = ((resp @ c) @ concat cs,
             ?s'\<lparr>rx := tl rest, ops := ops ?s' @ map (Recv 4096) (cs @ [[]])\<rparr>)"
  proof (rule Cons.IH)
    show "rx ?s' = cs @ rest" by simp
    show "rest = [] \<or> hd rest = []" by (rule Cons.prems(2))
    show "\<forall>c\<in>set cs. c \<noteq> [] \<and> length c \<le> 4096" using Cons.prems(3) by simp
    show "c \<noteq> []" using Cons.prems(3) by simp
    show "\<not> sublist terminator ((resp @ c) @ concat cs)" using Cons.prems(5) by simp
  qed
  with step show ?case by simp
qed


lemma upgrade_loop_reads:
  "\<exists>reads. fst (upgrade_loop data resp s) = resp @ concat reads
         \<and> ops (snd (upgrade_loop data resp s)) = ops s @ map (Recv 4096) reads"
proof (induction data resp s rule: upgrade_loop.induct)
  case (1 data resp s)
  show ?case
  proof (cases "data = [] \<or> sublist terminator resp")
    case True
    then have "upgrade_loop data resp s = (resp, s)" by (rule upgrade_loop_stop)
    then have "fst (upgrade_loop data resp s) = resp @ concat []
         \<and> ops (snd (upgrade_loop data resp s)) = ops s @ map (Recv 4096) []" by simp
    then show ?thesis by blast
  next
    case False
    let ?d = "fst (recv 4096 s)" and ?s' = "snd (recv 4096 s)"
    from False have step: "upgrade_loop data resp s = upgrade_loop ?d (resp @ ?d) ?s'"
      by (simp add: upgrade_loop_step)
    have "\<exists>reads. fst (upgrade_loop ?d (resp @ ?d) ?s') = (resp @ ?d) @ concat reads
         \<and> ops (snd (upgrade_loop ?d (resp @ ?d) ?s')) = ops ?s' @ map (Recv 4096) reads"
      by (rule "1.IH" [of ?d ?s']) (use False in \<open>simp_all add: bytes_find_neg\<close>)
    then obtain reads where
      "fst (upgrade_loop ?d (resp @ ?d) ?s') = (resp @ ?d) @ concat reads"
      "ops (snd (upgrade_loop ?d (resp @ ?d) ?s')) = ops ?s' @ map (Recv 4096) reads"
      by blast
    then have "fst (upgrade_loop data resp s) = resp @ concat (?d # reads)
         \<and> ops (snd (upgrade_loop data resp s)) = ops s @ map (Recv 4096) (?d # reads)"
      using step by (simp add: recv_ops)
    then show ?thesis by blast
  qed
qed

lemma no_terminator_before_end:
  assumes "\<forall>c\<in>set chunks. c \<noteq> []" and "j < length chunks"
    and "\<not> sublist terminator (butlast (concat chunks))"
  shows "\<not> sublist terminator (concat (take j chunks))"
proof
  assume a: "sublist terminator (concat (take j chunks))"
  have "chunks ! j \<in> set (drop j chunks)"
    using assms(2) by (metis Cons_nth_drop_Suc list.set_intros(1))
  then have ne: "concat (drop j chunks) \<noteq> []"
    using assms(1) by (auto dest: in_set_dropD)
  have "concat chunks = concat (take j chunks) @ concat (drop j chunks)"
    by (metis append_take_drop_id concat_append)
  then have "butlast (concat chunks) = butlast (concat (take j chunks) @ concat (drop j chunks))"
    by (rule arg_cong)
  also have "\<dots> = concat (take j chunks) @ butlast (concat (drop j chunks))"
    using ne by (simp only: butlast_append if_False)
  finally have "butlast (concat chunks) = concat (take j chunks) @ butlast (concat (drop j chunks))" .
  with a assms(3) show False by (simp add: sublist_append)
qed

lemma init_open:
  "init s url =
     (Inr (),
      \<lparr>sock = snd (upgrade_loop (fst (recv 4096 (sendall (encode_utf8 (reqdata url)) s)))
                     (fst (recv 4096 (sendall (encode_utf8 (reqdata url)) s)))
                     (snd (recv 4096 (sendall (encode_utf8 (reqdata url)) s)))),
       has_socket = True,
       response = fst (upgrade_loop (fst (recv 4096 (sendall (encode_utf8 (reqdata url)) s)))
                     (fst (recv 4096 (sendall (encode_utf8 (reqdata url)) s)))
                     (snd (recv 4096 (sendall (encode_utf8 (reqdata url)) s))))\<rparr>)"
  by (simp add: init_def upgrade_def case_prod_beta)



lemma str_nat_example: "str_nat 6080 = ''6080''"
  by (simp add: str_nat.simps [of 6080] str_nat.simps [of 608] str_nat.simps [of 60]
        str_nat.simps [of 6])

lemma digit_cases:
  "k < 10 \<Longrightarrow> k = 0 \<or> k = 1 \<or> k = 2 \<or> k = 3 \<or> k = 4 \<or> k = 5 \<or> k = 6 \<or> k = 7 \<or> k = 8 \<or> k = (9::nat)"
  by arith

lemma digit_char_value: "k < 10 \<Longrightarrow> (of_char (''0123456789'' ! k) :: nat) = 48 + k"
  by (drule digit_cases) (elim disjE; simp)

lemma digit_char_nonzero: "0 < k \<Longrightarrow> k < 10 \<Longrightarrow> ''0123456789'' ! k \<noteq> CHR ''0''"
  by (drule digit_cases) (elim disjE; simp)

lemma str_nat_nonempty: "str_nat n \<noteq> []"
  by (subst str_nat.simps) simp

lemma str_nat_small: "n < 10 \<Longrightarrow> str_nat n = [''0123456789'' ! n]"
  by (subst str_nat.simps) simp

lemma str_nat_large:
  "\<not> n < 10 \<Longrightarrow> str_nat n = str_nat (n div 10) @ [''0123456789'' ! (n mod 10)]"
  by (subst str_nat.simps) simp

lemma str_nat_digits:
  "list_all (\<lambda>c. 48 \<le> (of_char c :: nat) \<and> (of_char c :: nat) \<le> 57) (str_nat n)"
proof (induction n rule: str_nat.induct)
  case (1 n)
  show ?case
  proof (cases "n < 10")
    case True
    then show ?thesis using digit_char_value [of n] by (simp add: str_nat_small)
  next
    case False
    have "n mod 10 < 10" by simp
    then have "(of_char (''0123456789'' ! (n mod 10)) :: nat) = 48 + n mod 10"
      by (rule digit_char_value)
    then show ?thesis
      using "1.IH" [OF False] False by (simp add: str_nat_large)
  qed
qed

lemma str_nat_length_one: "length (str_nat n) = 1 \<longleftrightarrow> n < 10"
proof (cases "n < 10")
  case True
  then show ?thesis by (simp add: str_nat_small)
next
  case False
  then show ?thesis using str_nat_nonempty [of "n div 10"] by (simp add: str_nat_large)
qed

lemma str_nat_hd: "0 < n \<Longrightarrow> hd (str_nat n) \<noteq> CHR ''0''"
proof (induction n rule: str_nat.induct)
  case (1 n)
  show ?case
  proof (cases "n < 10")
    case True
    then show ?thesis using "1.prems" digit_char_nonzero [of n] by (simp add: str_nat_small)
  next
    case False
    then have "0 < n div 10" by simp
    then have "hd (str_nat (n div 10)) \<noteq> CHR ''0''" using "1.IH" [OF False] by simp
    then show ?thesis using False str_nat_nonempty [of "n div 10"] by (simp add: str_nat_large)
  qed
qed

lemma decimal_value_snoc:
  "decimal_value (ds @ [c]) = 10 * decimal_value ds + (of_char c - 48)"
  by (simp add: decimal_value_def)

lemma decimal_value_str_nat: "decimal_value (str_nat n) = n"
proof (induction n rule: str_nat.induct)
  case (1 n)
  show ?case
  proof (cases "n < 10")
    case True
    then show ?thesis
      using digit_char_value [of n] by (simp add: str_nat_small decimal_value_def)
  next
    case False
    have "(of_char (''0123456789'' ! (n mod 10)) :: nat) = 48 + n mod 10"
      by (rule digit_char_value) simp
    then show ?thesis
      using "1.IH" [OF False] False by (simp add: str_nat_large decimal_value_snoc)
  qed
qed

lemma is_decimal_str_nat: "is_decimal (str_nat n) n"
proof -
  have "hd (str_nat n) \<noteq> CHR ''0''" if "1 < length (str_nat n)"
  proof -
    have "\<not> n < 10" using that str_nat_length_one [of n] by auto
    then show ?thesis by (intro str_nat_hd) simp
  qed
  then show ?thesis
    by (simp add: is_decimal_def str_nat_nonempty str_nat_digits decimal_value_str_nat)
qed

lemma reqdata_eq: "reqdata url = upgrade_request (hostname url) (str_nat (port url)) (query url)"
  by (simp add: reqdata_def upgrade_request_def CRLF_def)

lemma unat_encode_utf8:
  "length (encode_utf8 t) = length t \<and> (\<forall>i<length t. unat (encode_utf8 t ! i) = of_char (t ! i))"
  by (simp add: encode_utf8_def unat_of_nat)

lemma recv_sendall:
  "recv n (sendall bs s) = (fst (recv n s), (snd (recv n s))\<lparr>ops := ops s @ Sendall bs # [Recv n (fst (recv n s))]\<rparr>)"
  by (cases "rx s") (simp_all add: recv_def sendall_def)

lemma init_reads_chunks:
  assumes "rx s = chunks @ rest" and "chunks \<noteq> []"
    and "\<forall>c\<in>set chunks. c \<noteq> [] \<and> length c \<le> 4096"
  shows "(suffix terminator (concat chunks) \<and> \<not> sublist terminator (butlast (concat chunks))
          \<longrightarrow> init s url
                = (Inr (),
                   \<lparr>sock = \<lparr>rx = rest,
                            ops = ops s @ Sendall (encode_utf8 (reqdata url))
                                        # map (Recv 4096) chunks\<rparr>,
                    has_socket = True, response = concat chunks\<rparr>))
       \<and> (\<not> sublist terminator (concat chunks) \<and> (rest = [] \<or> hd rest = [])
          \<longrightarrow> init s url
                = (Inr (),
                   \<lparr>sock = \<lparr>rx = tl rest,
                            ops = ops s @ Sendall (encode_utf8 (reqdata url))
                                        # map (Recv 4096) (chunks @ [[]])\<rparr>,
                    has_socket = True, response = concat chunks\<rparr>))"
proof -
  obtain c cs where chunks: "chunks = c # cs"
    using assms(2) by (cases chunks) auto
  let ?s1 = "sendall (encode_utf8 (reqdata url)) s"
  let ?s2 = "?s1\<lparr>rx := cs @ rest, ops := ops ?s1 @ [Recv 4096 c]\<rparr>"
  have c: "c \<noteq> []" "length c \<le> 4096" and cs: "\<forall>c\<in>set cs. c \<noteq> [] \<and> length c \<le> 4096"
    using assms(3) chunks by simp_all
  have "rx ?s1 = c # (cs @ rest)"
    using assms(1) chunks by (simp add: sendall_def)
  then have first: "recv 4096 ?s1 = (c, ?s2)"
    using c(2) by (rule recv_whole)
  have rx2: "rx ?s2 = cs @ rest" by simp
  have found: "upgrade_loop c c ?s2
                 = (c @ concat cs, ?s2\<lparr>rx := rest, ops := ops ?s2 @ map (Recv 4096) cs\<rparr>)"
    if "suffix terminator (concat chunks)" "\<not> sublist terminator (butlast (concat chunks))"
  proof (rule upgrade_loop_run [OF rx2 cs c(1)])
    show "\<forall>j<length cs. \<not> sublist terminator (c @ concat (take j cs))"
    proof (intro allI impI)
      fix j assume "j < length cs"
      then have "Suc j < length chunks" using chunks by simp
      moreover have "\<forall>c\<in>set chunks. c \<noteq> []" using assms(3) by simp
      ultimately have "\<not> sublist terminator (concat (take (Suc j) chunks))"
        using that(2) by (intro no_terminator_before_end)
      then show "\<not> sublist terminator (c @ concat (take j cs))"
        using chunks by simp
    qed
    show "sublist terminator (c @ concat cs)"
      using that(1) chunks by (simp add: suffix_imp_sublist)
  qed
  have closed: "upgrade_loop c c ?s2
                 = (c @ concat cs,
                    ?s2\<lparr>rx := tl rest, ops := ops ?s2 @ map (Recv 4096) (cs @ [[]])\<rparr>)"
    if "\<not> sublist terminator (concat chunks)" "rest = [] \<or> hd rest = []"
    using that(1) chunks by (intro upgrade_loop_closed [OF rx2 that(2) cs c(1)]) simp
  have a: "init s url
             = (Inr (),
                \<lparr>sock = \<lparr>rx = rest,
                         ops = ops s @ Sendall (encode_utf8 (reqdata url))
                                     # map (Recv 4096) chunks\<rparr>,
                 has_socket = True, response = concat chunks\<rparr>)"
    if "suffix terminator (concat chunks)" "\<not> sublist terminator (butlast (concat chunks))"
    unfolding init_open first fst_conv snd_conv found [OF that]
    by (simp add: chunks sendall_def)
  have b: "init s url
             = (Inr (),
                \<lparr>sock = \<lparr>rx = tl rest,
                         ops = ops s @ Sendall (encode_utf8 (reqdata url))
                                     # map (Recv 4096) (chunks @ [[]])\<rparr>,
                 has_socket = True, response = concat chunks\<rparr>)"
    if "\<not> sublist terminator (concat chunks)" "rest = [] \<or> hd rest = []"
    unfolding init_open first fst_conv snd_conv closed [OF that]
    by (simp add: chunks sendall_def)
  from a b show ?thesis by blast
qed


lemma init_first_read_closed:
  assumes "rx s = rest" and "rest = [] \<or> hd rest = []"
  shows "init s url
           = (Inr (),
              \<lparr>sock = \<lparr>rx = tl rest,
                       ops = ops s @ Sendall (encode_utf8 (reqdata url))
                                   # map (Recv 4096) ([] @ [[]])\<rparr>,
               has_socket = True, response = concat []\<rparr>)"
proof -
  let ?s1 = "sendall (encode_utf8 (reqdata url)) s"
  let ?s2 = "?s1\<lparr>rx := tl rest, ops := ops ?s1 @ [Recv 4096 []]\<rparr>"
  have "rx ?s1 = rest" using assms(1) by (simp add: sendall_def)
  then have first: "recv 4096 ?s1 = ([], ?s2)"
    using assms(2) by (rule recv_closed)
  have loop: "upgrade_loop [] [] ?s2 = ([], ?s2)"
    by (simp add: upgrade_loop_stop)
  show ?thesis
    unfolding init_open first fst_conv snd_conv loop by (simp add: sendall_def)
qed

text \<open>
  C2. Let the transport deliver the response in the partial reads \<open>chunks\<close> (each not
  empty and of at most 4096 bytes, so that each is what one \<open>recv\<close> returns; there may
  be none), followed by whatever \<open>rest\<close>. If the concatenation of the chunks ends with
  CR LF CR LF and contains it nowhere earlier, the constructor reads exactly these
  chunks, no fewer and none of \<open>rest\<close>, and keeps their concatenation as the response;
  the terminator may lie across chunks, since the whole buffer is searched. If the
  chunks do not contain the terminator and the next read returns zero bytes, the loop
  ends with that read, also when it is the very first read.
\<close>

theorem handshake_stops_at_terminator:
  assumes "rx s = chunks @ rest"
    and "\<forall>c\<in>set chunks. c \<noteq> [] \<and> length c \<le> 4096"
  shows "(suffix terminator (concat chunks) \<and> \<not> sublist terminator (butlast (concat chunks))
          \<longrightarrow> init s url
                = (Inr (),
                   \<lparr>sock = \<lparr>rx = rest,
                            ops = ops s @ Sendall (encode_utf8 (reqdata url))
                                        # map (Recv 4096) chunks\<rparr>,
                    has_socket = True, response = concat chunks\<rparr>))
       \<and> (\<not> sublist terminator (concat chunks) \<and> (rest = [] \<or> hd rest = [])
          \<longrightarrow> init s url
                = (Inr (),
                   \<lparr>sock = \<lparr>rx = tl rest,
                            ops = ops s @ Sendall (encode_utf8 (reqdata url))
                                        # map (Recv 4096) (chunks @ [[]])\<rparr>,
                    has_socket = True, response = concat chunks\<rparr>))"
proof (cases chunks)
  case Nil
  have "\<not> suffix terminator (concat chunks)"
    using Nil by (simp add: terminator_def)
  moreover have "init s url
           = (Inr (),
              \<lparr>sock = \<lparr>rx = tl rest,
                       ops = ops s @ Sendall (encode_utf8 (reqdata url))
                                   # map (Recv 4096) (chunks @ [[]])\<rparr>,
               has_socket = True, response = concat chunks\<rparr>)"
    if "rest = [] \<or> hd rest = []"
    using init_first_read_closed [OF _ that, of s url] assms(1) Nil by simp
  ultimately show ?thesis by blast
next
  case (Cons c cs)
  then have "chunks \<noteq> []" by simp
  with assms(1) show ?thesis
    using assms(2) by (rule init_reads_chunks)
qed

theorem handshake_stops_at_terminator_witness:
  "init (fresh_socket ([[0x4F, 0x4B, 0x0D, 0x0A], [0x0D], [0x0A]] @ [[0x82, 0x01]]))
        \<lparr>hostname = ''h'', port = 80, query = ''token=x''\<rparr>
     = (Inr (),
        \<lparr>sock = \<lparr>rx = [[0x82, 0x01]],
                 ops = [Sendall (encode_utf8 (reqdata \<lparr>hostname = ''h'', port = 80, query = ''token=x''\<rparr>)),
                        Recv 4096 [0x4F, 0x4B, 0x0D, 0x0A], Recv 4096 [0x0D], Recv 4096 [0x0A]]\<rparr>,
         has_socket = True,
         response = [0x4F, 0x4B, 0x0D, 0x0A, 0x0D, 0x0A]\<rparr>)
   \<and> init (fresh_socket ([[0x4F, 0x4B, 0x0D, 0x0A]] @ []))
          \<lparr>hostname = ''h'', port = 80, query = ''token=x''\<rparr>
     = (Inr (),
        \<lparr>sock = \<lparr>rx = [],
                 ops = [Sendall (encode_utf8 (reqdata \<lparr>hostname = ''h'', port = 80, query = ''token=x''\<rparr>)),
                        Recv 4096 [0x4F, 0x4B, 0x0D, 0x0A], Recv 4096 []]\<rparr>,
         has_socket = True,
         response = [0x4F, 0x4B, 0x0D, 0x0A]\<rparr>)
   \<and> init (fresh_socket ([] @ [[], [0x4F, 0x4B]]))
          \<lparr>hostname = ''h'', port = 80, query = ''token=x''\<rparr>
     = (Inr (),
        \<lparr>sock = \<lparr>rx = [[0x4F, 0x4B]],
                 ops = [Sendall (encode_utf8 (reqdata \<lparr>hostname = ''h'', port = 80, query = ''token=x''\<rparr>)),
                        Recv 4096 []]\<rparr>,
         has_socket = True,
         response = []\<rparr>)"
proof -
  let ?chunks = "[[0x4F, 0x4B, 0x0D, 0x0A], [0x0D], [0x0A]] :: byte list list"
  let ?short = "[[0x4F, 0x4B, 0x0D, 0x0A]] :: byte list list"
  let ?none = "[] :: byte list list"
  have a: "rx (fresh_socket (?chunks @ [[0x82, 0x01]])) = ?chunks @ [[0x82, 0x01]]"
    by (simp add: fresh_socket_def)
  have c: "\<forall>c\<in>set ?chunks. c \<noteq> [] \<and> length c \<le> 4096" by simp
  have d: "suffix terminator (concat ?chunks)"
    by (simp add: terminator_def suffix_to_prefix)
  have e: "\<not> sublist terminator (butlast (concat ?chunks))"
    by (simp add: terminator_def sublist_Cons_right)
  have a': "rx (fresh_socket (?short @ [])) = ?short @ []"
    by (simp add: fresh_socket_def)
  have c': "\<forall>c\<in>set ?short. c \<noteq> [] \<and> length c \<le> 4096" by simp
  have d': "\<not> sublist terminator (concat ?short)"
    by (simp add: terminator_def sublist_Cons_right)
  have e': "([] :: byte list list) = [] \<or> hd ([] :: byte list list) = []" by simp
  have a'': "rx (fresh_socket (?none @ [[], [0x4F, 0x4B]])) = ?none @ [[], [0x4F, 0x4B]]"
    by (simp add: fresh_socket_def)
  have c'': "\<forall>c\<in>set ?none. c \<noteq> [] \<and> length c \<le> 4096" by simp
  have d'': "\<not> sublist terminator (concat ?none)"
    by (simp add: terminator_def)
  have e'': "[[], [0x4F, 0x4B]] = ([] :: byte list list) \<or> hd [[], [0x4F, 0x4B :: byte]] = []"
    by simp
  have 1: "init (fresh_socket (?chunks @ [[0x82, 0x01]]))
             \<lparr>hostname = ''h'', port = 80, query = ''token=x''\<rparr>
     = (Inr (),
        \<lparr>sock = \<lparr>rx = [[0x82, 0x01]],
                 ops = [Sendall (encode_utf8 (reqdata \<lparr>hostname = ''h'', port = 80, query = ''token=x''\<rparr>)),
                        Recv 4096 [0x4F, 0x4B, 0x0D, 0x0A], Recv 4096 [0x0D], Recv 4096 [0x0A]]\<rparr>,
         has_socket = True,
         response = [0x4F, 0x4B, 0x0D, 0x0A, 0x0D, 0x0A]\<rparr>)"
    using handshake_stops_at_terminator [OF a c] d e by (simp add: fresh_socket_def)
  have 2: "init (fresh_socket (?short @ []))
             \<lparr>hostname = ''h'', port = 80, query = ''token=x''\<rparr>
     = (Inr (),
        \<lparr>sock = \<lparr>rx = [],
                 ops = [Sendall (encode_utf8 (reqdata \<lparr>hostname = ''h'', port = 80, query = ''token=x''\<rparr>)),
                        Recv 4096 [0x4F, 0x4B, 0x0D, 0x0A], Recv 4096 []]\<rparr>,
         has_socket = True,
         response = [0x4F, 0x4B, 0x0D, 0x0A]\<rparr>)"
    using handshake_stops_at_terminator [OF a' c'] d' e' by (simp add: fresh_socket_def)
  have 3: "init (fresh_socket (?none @ [[], [0x4F, 0x4B]]))
             \<lparr>hostname = ''h'', port = 80, query = ''token=x''\<rparr>
     = (Inr (),
        \<lparr>sock = \<lparr>rx = [[0x4F, 0x4B]],
                 ops = [Sendall (encode_utf8 (reqdata \<lparr>hostname = ''h'', port = 80, query = ''token=x''\<rparr>)),
                        Recv 4096 []]\<rparr>,
         has_socket = True,
         response = []\<rparr>)"
    using handshake_stops_at_terminator [OF a'' c''] d'' e'' by (simp add: fresh_socket_def)
  from 1 2 3 show ?thesis by blast
qed

lemma encode_utf8_CRLF: "encode_utf8 (CRLF @ CRLF) = terminator"
  by (simp add: encode_utf8_def CRLF_def terminator_def)

lemma init_reads:
  "\<exists>reads. response (snd (init s url)) = concat reads
         \<and> ops (sock (snd (init s url)))
             = ops s @ Sendall (encode_utf8 (reqdata url)) # map (Recv 4096) reads"
proof -
  let ?s1 = "sendall (encode_utf8 (reqdata url)) s"
  let ?d = "fst (recv 4096 ?s1)" and ?s2 = "snd (recv 4096 ?s1)"
  obtain reads where r: "fst (upgrade_loop ?d ?d ?s2) = ?d @ concat reads"
    "ops (snd (upgrade_loop ?d ?d ?s2)) = ops ?s2 @ map (Recv 4096) reads"
    using upgrade_loop_reads [of ?d ?d ?s2] by blast
  have "ops ?s2 = ops s @ [Sendall (encode_utf8 (reqdata url)), Recv 4096 ?d]"
    by (simp add: recv_ops sendall_def)
  with r have "response (snd (init s url)) = concat (?d # reads)
         \<and> ops (sock (snd (init s url)))
             = ops s @ Sendall (encode_utf8 (reqdata url)) # map (Recv 4096) (?d # reads)"
    by (simp add: init_open)
  then show ?thesis by blast
qed

lemma encode_reqdata_h80:
  "encode_utf8 (reqdata \<lparr>hostname = ''h'', port = 80, query = ''token=x''\<rparr>) = request_h80"
  by (simp add: reqdata_def encode_utf8_def CRLF_def request_h80_def str_nat.simps [of 80]
        str_nat.simps [of 8])

lemma init_h80:
  "init (fresh_socket [[0x4F, 0x4B, 0x0D, 0x0A, 0x0D, 0x0A]])
        \<lparr>hostname = ''h'', port = 80, query = ''token=x''\<rparr>
     = (Inr (),
        \<lparr>sock = \<lparr>rx = [],
                 ops = [Sendall request_h80, Recv 4096 [0x4F, 0x4B, 0x0D, 0x0A, 0x0D, 0x0A]]\<rparr>,
         has_socket = True, response = [0x4F, 0x4B, 0x0D, 0x0A, 0x0D, 0x0A]\<rparr>)"
proof -
  let ?url = "\<lparr>hostname = ''h'', port = 80, query = ''token=x''\<rparr>"
  let ?r = "[0x4F, 0x4B, 0x0D, 0x0A, 0x0D, 0x0A] :: byte list"
  let ?s2 = "\<lparr>rx = [], ops = [Sendall request_h80, Recv 4096 ?r]\<rparr> :: tcp_socket"
  have first: "recv 4096 (sendall (encode_utf8 (reqdata ?url)) (fresh_socket [?r])) = (?r, ?s2)"
    unfolding encode_reqdata_h80 by (simp add: recv_def sendall_def fresh_socket_def)
  have "sublist terminator ?r"
    by (simp add: terminator_def sublist_Cons_right)
  then have loop: "upgrade_loop ?r ?r ?s2 = (?r, ?s2)"
    by (simp add: upgrade_loop_stop)
  show ?thesis
    unfolding init_open first fst_conv snd_conv loop by simp
qed

text \<open>
  C7. The constructor sends exactly one message on the socket, before any read, and
  every other call on the socket is a \<open>recv\<close>. The message has one byte for each
  character of the literal request, with the value of that character: the request line
  \<open>GET /websockify HTTP/1.1\<close>, the headers \<open>Host\<close> (host, colon, port in decimal),
  \<open>Upgrade: websocket\<close>, \<open>Connection: Upgrade\<close>, \<open>Cookie\<close> (the query string of the URL),
  \<open>Sec-WebSocket-Key: x3JJHMbDL1EzLkh9GBhXDw==\<close>, \<open>Sec-WebSocket-Version: 13\<close> and
  \<open>Sec-WebSocket-Protocol: binary\<close>, each line ended by CR LF, and an empty line.
\<close>

theorem init_sends_upgrade_request:
  "\<exists>sent port_text reads.
      ops (sock (snd (init s url))) = ops s @ Sendall sent # map (Recv 4096) reads
    \<and> is_decimal port_text (port url)
    \<and> length sent = length (upgrade_request (hostname url) port_text (query url))
    \<and> (\<forall>i<length sent.
          unat (sent ! i) = of_char (upgrade_request (hostname url) port_text (query url) ! i))"
proof -
  let ?text = "upgrade_request (hostname url) (str_nat (port url)) (query url)"
  obtain reads where
    "ops (sock (snd (init s url)))
       = ops s @ Sendall (encode_utf8 (reqdata url)) # map (Recv 4096) reads"
    using init_reads [of s url] by blast
  then have o: "ops (sock (snd (init s url)))
                  = ops s @ Sendall (encode_utf8 ?text) # map (Recv 4096) reads"
    by (simp only: reqdata_eq)
  have d: "is_decimal (str_nat (port url)) (port url)" by (rule is_decimal_str_nat)
  have l: "length (encode_utf8 ?text) = length ?text"
    and b: "\<forall>i<length (encode_utf8 ?text). unat (encode_utf8 ?text ! i) = of_char (?text ! i)"
    using unat_encode_utf8 [of ?text] by simp_all
  from o d l b show ?thesis by blast
qed

theorem init_sends_upgrade_request_witness:
  "ops (sock (snd (init (fresh_socket [[0x4F, 0x4B, 0x0D, 0x0A, 0x0D, 0x0A]])
                        \<lparr>hostname = ''h'', port = 80, query = ''token=x''\<rparr>)))
     = [Sendall request_h80, Recv 4096 [0x4F, 0x4B, 0x0D, 0x0A, 0x0D, 0x0A]]
   \<and> (\<exists>port_text.
         is_decimal port_text 80
       \<and> length request_h80 = length (upgrade_request ''h'' port_text ''token=x'')
       \<and> (\<forall>i<length request_h80.
             unat (request_h80 ! i) = of_char (upgrade_request ''h'' port_text ''token=x'' ! i)))"
proof -
  let ?s = "fresh_socket [[0x4F, 0x4B, 0x0D, 0x0A, 0x0D, 0x0A]]"
  let ?url = "\<lparr>hostname = ''h'', port = 80, query = ''token=x''\<rparr>"
  have ev: "ops (sock (snd (init ?s ?url)))
              = [Sendall request_h80, Recv 4096 [0x4F, 0x4B, 0x0D, 0x0A, 0x0D, 0x0A]]"
    by (simp add: init_h80)
  obtain sent port_text reads where
    o: "ops (sock (snd (init ?s ?url))) = ops ?s @ Sendall sent # map (Recv 4096) reads"
    and d: "is_decimal port_text (port ?url)"
    and l: "length sent = length (upgrade_request (hostname ?url) port_text (query ?url))"
    and b: "\<forall>i<length sent.
              unat (sent ! i) = of_char (upgrade_request (hostname ?url) port_text (query ?url) ! i)"
    using init_sends_upgrade_request [of ?s ?url] by blast
  from o ev have "sent = request_h80" by (simp add: fresh_socket_def)
  with d l b have "is_decimal port_text 80
       \<and> length request_h80 = length (upgrade_request ''h'' port_text ''token=x'')
       \<and> (\<forall>i<length request_h80.
             unat (request_h80 ! i) = of_char (upgrade_request ''h'' port_text ''token=x'' ! i))"
    by simp
  with ev show ?thesis by blast
qed


end
